theory Spec2Isabelle
  imports Main
begin


section \<open>Python values and dictionaries\<close>

text \<open>
  A Python \<open>dict\<close> keeps its items in insertion order and holds every key once. It is an
  association list here; \<open>wf_dict\<close> states that the keys are pairwise different, which
  every \<open>dict\<close> object satisfies. The keys of every dictionary of \<open>basic_logging\<close> are
  strings.
\<close>

type_synonym 'v dict = "(string \<times> 'v) list"

text \<open>
  The values that occur in a logging configuration document: \<open>None\<close>, booleans,
  integers, strings, class objects (the \<open>"()"\<close> factories), lists and nested
  dictionaries. \<open>isinstance(x, dict)\<close> is a match on \<open>VDict\<close>.
\<close>

datatype pyval =
    VNone
  | VBool bool
  | VInt int
  | VStr string
  | VClass string
  | VList "pyval list"
  | VDict "(string \<times> pyval) list"

definition wf_dict :: "'v dict \<Rightarrow> bool" where
  "wf_dict d = distinct (map fst d)"

text \<open>\<open>d.get(k)\<close>, and \<open>k in d\<close> as \<open>dict_get d k \<noteq> None\<close>.\<close>

definition dict_get :: "'v dict \<Rightarrow> string \<Rightarrow> 'v option" where
  "dict_get d k = map_of d k"

definition dict_keys :: "'v dict \<Rightarrow> string set" where
  "dict_keys d = set (map fst d)"

text \<open>\<open>d[k] = v\<close>: an existing key keeps its position, a new key goes to the end.\<close>

fun dict_set :: "string \<Rightarrow> 'v \<Rightarrow> 'v dict \<Rightarrow> 'v dict" where
  "dict_set k v [] = [(k, v)]"
| "dict_set k v ((k', v') # d) =
     (if k' = k then (k, v) # d else (k', v') # dict_set k v d)"

text \<open>\<open>d.update(e)\<close>: every item of \<open>e\<close> is assigned, in the order of \<open>e\<close>.\<close>

fun dict_update :: "'v dict \<Rightarrow> 'v dict \<Rightarrow> 'v dict" where
  "dict_update d [] = d"
| "dict_update d ((k, v) # e) = dict_update (dict_set k v d) e"




section \<open>\<open>deepmerge\<close> on values\<close>

text \<open>
  \<^verbatim>\<open>
  def deepmerge(mapping: dict, *others: dict):
      mapping = mapping.copy()
      for other in others:
          for k, v in other.items():
              if k in mapping and isinstance(mapping[k], dict) and isinstance(v, dict):
                  mapping[k] = deepmerge(mapping[k], v)
              else:
                  mapping[k] = v
      return mapping
  \<close>
  On values the copy is the identity. \<open>deepmerge\<close> runs the outer loop over
  \<open>others\<close>, \<open>merge_other\<close> the inner loop over the items of one override; the
  recursive call is \<open>deepmerge d [e]\<close>. The recursion descends into the override, so
  the measure is the size of the overrides.
\<close>

function deepmerge :: "pyval dict \<Rightarrow> pyval dict list \<Rightarrow> pyval dict"
  and merge_other :: "pyval dict \<Rightarrow> pyval dict \<Rightarrow> pyval dict"
where
  "deepmerge mapping [] = mapping"
| "deepmerge mapping (other # others) = deepmerge (merge_other mapping other) others"
| "merge_other mapping [] = mapping"
| "merge_other mapping ((k, v) # items) =
     merge_other
       (case (dict_get mapping k, v) of
          (Some (VDict d), VDict e) \<Rightarrow> dict_set k (VDict (deepmerge d [e])) mapping
        | _ \<Rightarrow> dict_set k v mapping)
       items"
  by pat_completeness auto
termination
  apply (relation "measure (\<lambda>x. case x of
      Inl (m, os) \<Rightarrow> sum_list (map (size_list (size_prod (\<lambda>_. 0) size)) os) + length os + 1
    | Inr (m, items) \<Rightarrow> size_list (size_prod (\<lambda>_. 0) size) items)")
  apply auto
  done


section \<open>\<open>deepmerge\<close> on the heap\<close>

text \<open>
  Whether \<open>deepmerge\<close> changes an object that existed before the call is a question
  about object identity, so the same function is modelled a second time over a heap of
  dictionary objects. An address is an index into the heap; allocation appends. A value
  stored in a dictionary is a reference \<open>Ref a\<close> to the dictionary object at \<open>a\<close>
  (\<open>isinstance(v, dict)\<close>) or a \<open>Leaf\<close>, any other value, which \<open>deepmerge\<close> neither
  inspects nor changes.
\<close>

type_synonym addr = nat

datatype 'a hval = Leaf 'a | Ref addr

type_synonym 'a heap = "(string \<times> 'a hval) list list"

text \<open>\<open>mapping.copy()\<close>: a new object with the items of the old one (a shallow copy).\<close>

definition copy_h :: "'a heap \<Rightarrow> addr \<Rightarrow> 'a heap \<times> addr" where
  "copy_h h a = (h @ [h ! a], length h)"

text \<open>\<open>mapping[k] = v\<close> on the object at address \<open>m\<close>, in place.\<close>

definition setitem_h :: "'a heap \<Rightarrow> addr \<Rightarrow> string \<Rightarrow> 'a hval \<Rightarrow> 'a heap" where
  "setitem_h h m k v = h[m := dict_set k v (h ! m)]"

text \<open>
  The inner loop \<open>for k, v in other.items()\<close>, over the items of the override. \<open>call\<close>
  is the recursive call \<open>deepmerge(mapping[k], v)\<close>; it returns the heap it leaves and
  the address of its result, or \<open>None\<close> when it raised. The Boolean of the result is
  \<open>False\<close> when the loop was left by an exception.
\<close>

fun merge_items_h ::
  "('a heap \<Rightarrow> addr \<Rightarrow> addr \<Rightarrow> 'a heap \<times> addr option) \<Rightarrow> 'a heap \<Rightarrow> addr \<Rightarrow> 'a hval dict \<Rightarrow> 'a heap \<times> bool"
where
  "merge_items_h call h m [] = (h, True)"
| "merge_items_h call h m ((k, v) # items) =
     (case (dict_get (h ! m) k, v) of
        (Some (Ref a), Ref b) \<Rightarrow>
          (case call h a b of
             (h', None) \<Rightarrow> (h', False)
           | (h', Some r) \<Rightarrow> merge_items_h call (setitem_h h' m k (Ref r)) m items)
      | _ \<Rightarrow> merge_items_h call (setitem_h h m k v) m items)"

text \<open>The outer loop \<open>for other in others\<close>; the items of \<open>other\<close> are read when its turn comes.\<close>

fun merge_others_h ::
  "('a heap \<Rightarrow> addr \<Rightarrow> addr \<Rightarrow> 'a heap \<times> addr option) \<Rightarrow> 'a heap \<Rightarrow> addr \<Rightarrow> addr list \<Rightarrow> 'a heap \<times> bool"
where
  "merge_others_h call h m [] = (h, True)"
| "merge_others_h call h m (other # others) =
     (case merge_items_h call h m (h ! other) of
        (h', False) \<Rightarrow> (h', False)
      | (h', True) \<Rightarrow> merge_others_h call h' m others)"

text \<open>
  The body of \<open>deepmerge\<close>. Its arguments are addresses of allocated dictionaries; an
  address outside the heap is no Python object, and the model answers \<open>None\<close> for it.
\<close>

definition deepmerge_body ::
  "('a heap \<Rightarrow> addr \<Rightarrow> addr \<Rightarrow> 'a heap \<times> addr option) \<Rightarrow> 'a heap \<Rightarrow> addr \<Rightarrow> addr list \<Rightarrow> 'a heap \<times> addr option"
where
  "deepmerge_body call h mapping others =
     (if mapping < length h \<and> list_all (\<lambda>other. other < length h) others then
        (case copy_h h mapping of
           (h0, m) \<Rightarrow>
             (case merge_others_h call h0 m others of
                (h', True) \<Rightarrow> (h', Some m)
              | (h', False) \<Rightarrow> (h', None)))
      else (h, None))"

text \<open>
  A heap may hold a dictionary that contains itself, on which the recursion of
  \<open>deepmerge\<close> does not end: CPython stops it with \<open>RecursionError\<close>. \<open>depth\<close> is
  the number of nested calls that are still allowed; a call beyond it raises, and the
  heap built so far remains.
\<close>

primrec deepmerge_h :: "nat \<Rightarrow> 'a heap \<Rightarrow> addr \<Rightarrow> addr list \<Rightarrow> 'a heap \<times> addr option" where
  "deepmerge_h 0 h mapping others = deepmerge_body (\<lambda>h a b. (h, None)) h mapping others"
| "deepmerge_h (Suc depth) h mapping others =
     deepmerge_body (\<lambda>h a b. deepmerge_h depth h a [b]) h mapping others"

text \<open>
  The two models are tied together by a representation relation. \<open>rep_in S h v x\<close>: in
  the heap \<open>h\<close>, following references through the addresses in \<open>S\<close> only, the stored
  value \<open>v\<close> unfolds to the value \<open>x\<close>. A reference stands for a dictionary, a leaf
  for a value that is not one. Only a finite, acyclic part of the heap has a
  representation.
\<close>

fun is_dict :: "pyval \<Rightarrow> bool" where
  "is_dict (VDict d) = True"
| "is_dict _ = False"

inductive rep_in :: "addr set \<Rightarrow> pyval heap \<Rightarrow> pyval hval \<Rightarrow> pyval \<Rightarrow> bool"
  for S :: "addr set" and h :: "pyval heap"
where
  rep_leaf: "\<not> is_dict x \<Longrightarrow> rep_in S h (Leaf x) x"
| rep_ref: "a \<in> S \<Longrightarrow> a < length h \<Longrightarrow>
     list_all2 (\<lambda>p q. fst p = fst q \<and> rep_in S h (snd p) (snd q)) (h ! a) d \<Longrightarrow>
     rep_in S h (Ref a) (VDict d)"

definition rep_items :: "addr set \<Rightarrow> pyval heap \<Rightarrow> pyval hval dict \<Rightarrow> pyval dict \<Rightarrow> bool" where
  "rep_items S h items d = list_all2 (\<lambda>p q. fst p = fst q \<and> rep_in S h (snd p) (snd q)) items d"

definition represents :: "pyval heap \<Rightarrow> addr \<Rightarrow> pyval dict \<Rightarrow> bool" where
  "represents h a d = rep_in {..<length h} h (Ref a) (VDict d)"


section \<open>The configuration builder\<close>

text \<open>The keyword arguments of \<open>configure_logging\<close> and their defaults.\<close>

record params =
  name :: string
  level :: pyval
  fmt :: string
  time_fmt :: string
  utc :: bool
  json :: bool
  rename_fields :: "pyval dict"
  static_fields :: "pyval dict option"
  extra :: "pyval dict option"

definition JSON_RENAME_FIELDS :: "pyval dict" where
  "JSON_RENAME_FIELDS = [(''asctime'', VStr ''timestamp''), (''levelname'', VStr ''level'')]"

definition DEFAULT_FMT :: string where
  "DEFAULT_FMT = ''%(asctime)s %(levelname)s [%(filename)s:%(lineno)d] %(message)s''"

definition DEFAULT_TIME_FMT :: string where
  "DEFAULT_TIME_FMT = ''%Y-%m-%d %H:%M:%S.%f%z''"

definition defaults :: "string \<Rightarrow> params" where
  "defaults n = \<lparr> name = n, level = VStr ''INFO'', fmt = DEFAULT_FMT, time_fmt = DEFAULT_TIME_FMT,
     utc = True, json = True, rename_fields = JSON_RENAME_FIELDS, static_fields = None, extra = None \<rparr>"

text \<open>The dictionary literal \<open>cfg\<close> that \<open>configure_logging\<close> builds from its arguments.\<close>

definition cfg :: "params \<Rightarrow> pyval dict" where
  "cfg p =
    (let formatter = (if json p then ''json'' else ''simple'') in
     [(''version'', VInt 1),
      (''disable_existing_loggers'', VBool False),
      (''formatters'', VDict
         [(''simple'', VDict
            [(''()'', VClass ''ExtendedFormatter''),
             (''utc'', VBool (utc p)),
             (''format'', VStr (fmt p)),
             (''datefmt'', VStr (time_fmt p))]),
          (''json'', VDict
            [(''()'', VClass ''CustomJsonFormatter''),
             (''format'', VStr (fmt p)),
             (''datefmt'', VStr (time_fmt p)),
             (''utc'', VBool (utc p)),
             (''rename_fields'', VDict (rename_fields p)),
             (''static_fields'', (case static_fields p of None \<Rightarrow> VNone | Some s \<Rightarrow> VDict s))])]),
      (''handlers'', VDict
         [(''console'', VDict
            [(''class'', VStr ''logging.StreamHandler''),
             (''level'', level p),
             (''formatter'', VStr formatter),
             (''stream'', VStr ''ext://sys.stdout'')])]),
      (''loggers'', VDict
         [(name p, VDict [(''level'', level p), (''handlers'', VList [VStr ''console''])])])])"

text \<open>
  \<^verbatim>\<open>
      if extra:
          cfg = deepmerge(cfg, extra)
  \<close>
  \<open>merged_cfg\<close> is the value of \<open>cfg\<close> after these lines. \<open>None\<close> and the empty
  dictionary are the falsy values of \<open>extra\<close>.
\<close>

definition merged_cfg :: "params \<Rightarrow> pyval dict" where
  "merged_cfg p =
     (let c = cfg p in
      case extra p of
        None \<Rightarrow> c
      | Some e \<Rightarrow> if e \<noteq> [] then deepmerge c [e] else c)"

text \<open>
  \<^verbatim>\<open>
      logging.config.dictConfig(cfg)
      return logging.getLogger(name)
  \<close>
  The logging framework is not part of the package: \<open>dictConfig\<close> and \<open>getLogger\<close>
  are parameters. \<open>dictConfig\<close> takes the document and the process-wide logging
  state and returns the state it leaves, with \<open>Some err\<close> when it raised. An
  exception passes through \<open>configure_logging\<close>, which has no handler for it.
\<close>

definition configure_logging ::
  "(pyval dict \<Rightarrow> 'st \<Rightarrow> 'st \<times> 'e option) \<Rightarrow> (string \<Rightarrow> 'st \<Rightarrow> 'l) \<Rightarrow> params \<Rightarrow> 'st \<Rightarrow> 'st \<times> ('e + 'l)" where
  "configure_logging dictConfig getLogger p st =
     (case dictConfig (merged_cfg p) st of
        (st', Some err) \<Rightarrow> (st', Inl err)
      | (st', None) \<Rightarrow> (st', Inr (getLogger (name p) st')))"



text \<open>
  Two stand-ins for the framework's \<open>dictConfig\<close>, over a state that is the document
  in force. Both reject a document whose handler entries are not all dictionaries.
  \<open>checking_dictConfig\<close> validates before it touches the state; \<open>clearing_dictConfig\<close>
  discards the existing configuration first, so a rejected document leaves an empty state.
\<close>

definition valid_cfg :: "pyval dict \<Rightarrow> bool" where
  "valid_cfg c =
     (case dict_get c ''handlers'' of
        Some (VDict hs) \<Rightarrow> list_all (\<lambda>(n, h). case h of VDict _ \<Rightarrow> True | _ \<Rightarrow> False) hs
      | _ \<Rightarrow> False)"

definition checking_dictConfig :: "pyval dict \<Rightarrow> pyval dict \<Rightarrow> pyval dict \<times> string option" where
  "checking_dictConfig c st = (if valid_cfg c then (c, None) else (st, Some ''ValueError''))"

definition clearing_dictConfig :: "pyval dict \<Rightarrow> pyval dict \<Rightarrow> pyval dict \<times> string option" where
  "clearing_dictConfig c st = (if valid_cfg c then (c, None) else ([], Some ''ValueError''))"


section \<open>The JSON formatter\<close>

text \<open>\<open>rename_fields.get(f, f)\<close>.\<close>

definition rename_get :: "string dict \<Rightarrow> string \<Rightarrow> string" where
  "rename_get rename_map f = (case dict_get rename_map f of None \<Rightarrow> f | Some g \<Rightarrow> g)"

text \<open>
  Modelled from the spec: \<open>JsonFormatter.add_fields\<close> of the \<open>pythonjsonlogger\<close>
  package, the base class method that \<open>CustomJsonFormatter.add_fields\<close> calls through
  \<open>super()\<close>; the package is not among the sources. Section 4.2, step 1: "one entry per
  field referenced in the message template, keyed by the field's canonical name unless
  present in the rename map, in which case the renamed key is used, value taken from the
  record". The message is a string (section 3), so the message dictionary that is handed
  down is empty and adds nothing.
\<close>

fun JsonFormatter_add_fields ::
  "string list \<Rightarrow> string dict \<Rightarrow> 'v dict \<Rightarrow> (string \<Rightarrow> 'v) \<Rightarrow> 'v dict \<Rightarrow> 'v dict"
where
  "JsonFormatter_add_fields [] rename_map log_record record message_dict = log_record"
| "JsonFormatter_add_fields (f # fs) rename_map log_record record message_dict =
     JsonFormatter_add_fields fs rename_map
       (dict_set (rename_get rename_map f) (record f) log_record) record message_dict"

text \<open>\<open>self.static_fields = static_fields or {}\<close> in \<open>CustomJsonFormatter.__init__\<close>.\<close>

definition init_static_fields :: "'v dict option \<Rightarrow> 'v dict" where
  "init_static_fields static = (case static of None \<Rightarrow> [] | Some s \<Rightarrow> s)"

text \<open>
  \<^verbatim>\<open>
      def add_fields(self, log_record: dict, record, message_dict):
          log_record.update(self.static_fields)
          super().add_fields(log_record, record, message_dict)
  \<close>
  The base class method is the parameter \<open>super_add_fields\<close>.
\<close>

definition add_fields ::
  "('v dict \<Rightarrow> 'r \<Rightarrow> 'm \<Rightarrow> 'v dict) \<Rightarrow> 'v dict \<Rightarrow> 'v dict \<Rightarrow> 'r \<Rightarrow> 'm \<Rightarrow> 'v dict"
where
  "add_fields super_add_fields self_static_fields log_record record message_dict =
     super_add_fields (dict_update log_record self_static_fields) record message_dict"

text \<open>
  Modelled from the spec: the \<open>format\<close> method of the base class, which is not among
  the sources either. Section 4.2 names the inputs (the record, the fields that the message
  template references, the rename map, the static fields) and says that the object holds
  the entries of its steps 1 and 2 and no others; so \<open>add_fields\<close> is run on an empty
  mapping, and the result is the object that is serialised. \<open>referenced\<close> lists the
  fields of the template in their order.
\<close>

definition json_object ::
  "string list \<Rightarrow> string dict \<Rightarrow> 'v dict option \<Rightarrow> (string \<Rightarrow> 'v) \<Rightarrow> 'v dict"
where
  "json_object referenced rename_map static record =
     add_fields (JsonFormatter_add_fields referenced rename_map) (init_static_fields static) [] record []"


section \<open>Example inputs\<close>

text \<open>The first doctest of \<open>deepmerge\<close>: the base at address 1, the override at address 3.\<close>

definition doctest_heap :: "pyval heap" where
  "doctest_heap =
     [[(''cond'', Leaf (VStr ''true'')), (''last'', Leaf (VInt 424))],
      [(''foo'', Leaf (VStr ''bar'')), (''more'', Ref 0)],
      [(''additional'', Leaf (VInt 333))],
      [(''num'', Leaf (VInt 23)), (''foo'', Leaf (VStr ''not-bar'')), (''more'', Ref 2)]]"



text \<open>An override of a shape that the framework rejects, and a configuration in force before the call.\<close>

definition broken_extra :: "pyval dict" where
  "broken_extra = [(''handlers'', VDict [(''console'', VStr ''not-a-dict'')])]"

definition prior_state :: "pyval dict" where
  "prior_state = cfg (defaults ''old'')"

text \<open>A \<open>WARNING\<close> record with the message \<open>disk low\<close>, and the default rename map.\<close>

definition example_record :: "string \<Rightarrow> string" where
  "example_record f =
     (if f = ''levelname'' then ''WARNING'' else if f = ''message'' then ''disk low'' else [])"

definition example_rename :: "string dict" where
  "example_rename = [(''asctime'', ''timestamp''), (''levelname'', ''level'')]"


section \<open>Dictionary lemmas\<close>

lemma dict_get_set: "dict_get (dict_set k v d) k' = (if k' = k then Some v else dict_get d k')"
  by (induction d) (auto simp: dict_get_def)

lemma fst_dict_set: "fst ` set (dict_set k v d) = insert k (fst ` set d)"
proof (induction d)
  case Nil
  show ?case by simp
next
  case (Cons p d)
  obtain k' v' where p: "p = (k', v')" by (cases p)
  show ?case
    by (cases "k' = k") (simp_all add: p Cons.IH insert_commute)
qed

lemma dict_keys_set: "dict_keys (dict_set k v d) = insert k (dict_keys d)"
  by (simp add: dict_keys_def fst_dict_set)

lemma dict_get_update:
  "dict_get (dict_update d e) k = (case dict_get (rev e) k of None \<Rightarrow> dict_get d k | Some v \<Rightarrow> Some v)"
proof (induction e arbitrary: d)
  case Nil
  then show ?case by (simp add: dict_get_def)
next
  case (Cons p e)
  obtain k' v' where p: "p = (k', v')" by (cases p)
  have "dict_get (rev e @ [(k', v')]) k =
      (case dict_get (rev e) k of None \<Rightarrow> (if k = k' then Some v' else None) | Some v \<Rightarrow> Some v)"
    by (simp add: dict_get_def map_add_def split: option.splits)
  then show ?case
    by (simp add: p Cons.IH dict_get_set split: option.splits)
qed

lemma dict_keys_update: "dict_keys (dict_update d e) = dict_keys d \<union> dict_keys e"
proof (induction e arbitrary: d)
  case Nil
  then show ?case by (simp add: dict_keys_def)
next
  case (Cons p e)
  obtain k' v' where p: "p = (k', v')" by (cases p)
  have "dict_keys ((k', v') # e) = insert k' (dict_keys e)" by (simp add: dict_keys_def)
  then show ?case
    by (simp add: p Cons.IH dict_keys_set)
qed


lemma dict_get_rev: "wf_dict d \<Longrightarrow> dict_get (rev d) k = dict_get d k"
proof -
  assume "wf_dict d"
  then have d: "distinct (map fst d)" by (simp add: wf_dict_def)
  then have "distinct (rev (map fst d))" by (simp only: distinct_rev)
  then have dr: "distinct (map fst (rev d))" by (simp only: rev_map)
  have "set (rev d) = set d" by simp
  with map_of_inject_set [OF dr d] have "map_of (rev d) = map_of d" by blast
  then show ?thesis by (simp add: dict_get_def)
qed

lemma find_snoc:
  "find P (xs @ [x]) = (case find P xs of Some y \<Rightarrow> Some y | None \<Rightarrow> if P x then Some x else None)"
  by (induction xs) simp_all

lemma find_Some_set: "find P xs = Some x \<Longrightarrow> P x \<and> x \<in> set xs"
  by (induction xs) (auto split: if_splits)


section \<open>The merge rule\<close>

text \<open>The rule that one item of an override applies to the current mapping.\<close>

definition merged_value :: "pyval option \<Rightarrow> pyval \<Rightarrow> pyval" where
  "merged_value cur v =
     (case (cur, v) of
        (Some (VDict d), VDict e) \<Rightarrow> VDict (deepmerge d [e])
      | _ \<Rightarrow> v)"

lemma merge_other_step:
  "merge_other mapping ((k, v) # items) =
     merge_other (dict_set k (merged_value (dict_get mapping k) v) mapping) items"
  by (simp add: merged_value_def split: option.splits pyval.splits)

lemma merge_other_absent:
  "map_of items k = None \<Longrightarrow> dict_get (merge_other mapping items) k = dict_get mapping k"
proof (induction items arbitrary: mapping)
  case Nil
  then show ?case by simp
next
  case (Cons p items)
  obtain k' v' where p: "p = (k', v')" by (cases p)
  from Cons.prems have ne: "k \<noteq> k'" and rest: "map_of items k = None"
    by (auto simp: p split: if_splits)
  show ?case
    unfolding p merge_other_step
    by (simp add: Cons.IH [OF rest] dict_get_set ne)
qed

lemma merge_other_present:
  "distinct (map fst items) \<Longrightarrow> map_of items k = Some v \<Longrightarrow>
   dict_get (merge_other mapping items) k = Some (merged_value (dict_get mapping k) v)"
proof (induction items arbitrary: mapping)
  case Nil
  then show ?case by simp
next
  case (Cons p items)
  obtain k' v' where p: "p = (k', v')" by (cases p)
  from Cons.prems(1) have d: "distinct (map fst items)" and notin: "k' \<notin> fst ` set items"
    by (auto simp: p)
  show ?case
  proof (cases "k = k'")
    case True
    with Cons.prems(2) have v: "v' = v" by (simp add: p)
    from notin have "map_of items k' = None"
      by (simp add: map_of_eq_None_iff)
    then show ?thesis
      unfolding p merge_other_step
      by (simp add: merge_other_absent dict_get_set True v)
  next
    case False
    with Cons.prems(2) have "map_of items k = Some v" by (simp add: p)
    from Cons.IH [OF d this] show ?thesis
      unfolding p merge_other_step
      by (simp add: dict_get_set False)
  qed
qed

lemma deepmerge_single: "deepmerge mapping [other] = merge_other mapping other"
  by simp

lemma deepmerge_append: "deepmerge (deepmerge a bs) cs = deepmerge a (bs @ cs)"
  by (induction bs arbitrary: a) simp_all

text \<open>
  C2. With one override: a key of the override whose value and whose base value are both
  dictionaries is bound to their recursive merge; any other key of the override is bound
  to the override's value as it is (a list replaces a list, nothing is concatenated); a
  key that the override does not have keeps the base's binding.
\<close>

theorem deepmerge_override_rule:
  assumes "wf_dict other"
  shows "dict_get (deepmerge base [other]) k =
     (case dict_get other k of
        None \<Rightarrow> dict_get base k
      | Some v \<Rightarrow>
          (case (dict_get base k, v) of
             (Some (VDict d), VDict e) \<Rightarrow> Some (VDict (deepmerge d [e]))
           | _ \<Rightarrow> Some v))"
proof (cases "dict_get other k")
  case None
  then have "map_of other k = None" by (simp add: dict_get_def)
  from merge_other_absent [OF this] None show ?thesis
    by (simp add: deepmerge_single)
next
  case (Some v)
  then have m: "map_of other k = Some v" by (simp add: dict_get_def)
  from assms have d: "distinct (map fst other)" by (simp add: wf_dict_def)
  from merge_other_present [OF d m] Some show ?thesis
    by (simp add: deepmerge_single merged_value_def split: option.splits pyval.splits)
qed

theorem deepmerge_override_rule_witness:
  "wf_dict [(''num'', VInt 23), (''more'', VDict [(''additional'', VList [VInt 3])])] \<and>
   dict_get (deepmerge [(''foo'', VList [VInt 1]), (''more'', VDict [(''cond'', VStr ''true'')])]
                       [[(''num'', VInt 23), (''more'', VDict [(''additional'', VList [VInt 3])])]])
            ''more''
     = Some (VDict [(''cond'', VStr ''true''), (''additional'', VList [VInt 3])])"
proof -
  have wf: "wf_dict [(''num'', VInt 23), (''more'', VDict [(''additional'', VList [VInt 3])])]"
    by (simp add: wf_dict_def)
  from deepmerge_override_rule [OF wf, of "[(''foo'', VList [VInt 1]), (''more'', VDict [(''cond'', VStr ''true'')])]" "''more''"]
  show ?thesis
    using wf by (simp add: dict_get_def)
qed

text \<open>
  C5. Merging \<open>b\<close> into \<open>a\<close> and then \<open>c\<close> into the result gives the same dictionary as
  one call with the overrides \<open>b\<close> and \<open>c\<close>: \<open>deepmerge(deepmerge(a, b), c) == deepmerge(a, b, c)\<close>.
\<close>

theorem deepmerge_left_to_right:
  "deepmerge (deepmerge a [b]) [c] = deepmerge a [b, c]"
  by simp


section \<open>What \<open>deepmerge\<close> writes\<close>

text \<open>
  A call is framed when it leaves every object of the heap it was given as it was, only
  allocates, and returns a newly allocated address.
\<close>

definition framed :: "('a heap \<Rightarrow> addr \<Rightarrow> addr \<Rightarrow> 'a heap \<times> addr option) \<Rightarrow> bool" where
  "framed call =
     (\<forall>h a b h' r. call h a b = (h', r) \<longrightarrow>
        length h \<le> length h' \<and> take (length h) h' = h \<and>
        (\<forall>x. r = Some x \<longrightarrow> length h \<le> x \<and> x < length h'))"

lemma framedD:
  "framed call \<Longrightarrow> call h a b = (h', r) \<Longrightarrow>
     length h \<le> length h' \<and> take (length h) h' = h \<and> (\<forall>x. r = Some x \<longrightarrow> length h \<le> x \<and> x < length h')"
  unfolding framed_def by blast

lemma take_take_le: "n \<le> length h \<Longrightarrow> take (length h) h' = h \<Longrightarrow> take n h' = take n h"
  by (metis min.absorb1 take_take)

lemma setitem_h_length: "length (setitem_h h m k v) = length h"
  by (simp add: setitem_h_def)

lemma setitem_h_take: "n \<le> m \<Longrightarrow> take n (setitem_h h m k v) = take n h"
  by (simp add: setitem_h_def)

lemma merge_items_h_frame:
  "framed call \<Longrightarrow> n \<le> m \<Longrightarrow> n \<le> length h \<Longrightarrow> merge_items_h call h m items = (h', ok) \<Longrightarrow>
   length h \<le> length h' \<and> take n h' = take n h"
proof (induction items arbitrary: h)
  case Nil
  then show ?case by simp
next
  case (Cons p items)
  obtain k v where p: "p = (k, v)" by (cases p)
  show ?case
  proof (cases "\<exists>a b. dict_get (h ! m) k = Some (Ref a) \<and> v = Ref b")
    case True
    then obtain a b where cur: "dict_get (h ! m) k = Some (Ref a)" and v: "v = Ref b" by blast
    obtain h1 r where c: "call h a b = (h1, r)" by (cases "call h a b")
    from framedD [OF Cons.prems(1) c]
    have len1: "length h \<le> length h1" and tk1: "take (length h) h1 = h" by simp_all
    from take_take_le [OF Cons.prems(3) tk1] have tn1: "take n h1 = take n h" .
    show ?thesis
    proof (cases r)
      case None
      with Cons.prems(4) c cur v p have "h' = h1" by simp
      with len1 tn1 show ?thesis by simp
    next
      case (Some x)
      let ?h2 = "setitem_h h1 m k (Ref x)"
      from Cons.prems(4) c cur v p Some have run: "merge_items_h call ?h2 m items = (h', ok)" by simp
      from len1 Cons.prems(3) have "n \<le> length ?h2" by (simp add: setitem_h_length)
      from Cons.IH [OF Cons.prems(1,2) this run]
      have "length ?h2 \<le> length h'" and "take n h' = take n ?h2" by simp_all
      with len1 tn1 show ?thesis
        by (simp add: setitem_h_length setitem_h_take [OF Cons.prems(2)])
    qed
  next
    case False
    let ?h2 = "setitem_h h m k v"
    from False Cons.prems(4) p have run: "merge_items_h call ?h2 m items = (h', ok)"
      by (auto split: option.splits hval.splits)
    from Cons.prems(3) have "n \<le> length ?h2" by (simp add: setitem_h_length)
    from Cons.IH [OF Cons.prems(1,2) this run] show ?thesis
      by (simp add: setitem_h_length setitem_h_take [OF Cons.prems(2)])
  qed
qed

lemma merge_others_h_frame:
  "framed call \<Longrightarrow> n \<le> m \<Longrightarrow> n \<le> length h \<Longrightarrow> merge_others_h call h m others = (h', ok) \<Longrightarrow>
   length h \<le> length h' \<and> take n h' = take n h"
proof (induction others arbitrary: h)
  case Nil
  then show ?case by simp
next
  case (Cons other others)
  obtain h1 ok1 where it: "merge_items_h call h m (h ! other) = (h1, ok1)"
    by (cases "merge_items_h call h m (h ! other)")
  from merge_items_h_frame [OF Cons.prems(1,2,3) it]
  have len1: "length h \<le> length h1" and tn1: "take n h1 = take n h" by simp_all
  show ?case
  proof (cases ok1)
    case False
    with Cons.prems(4) it have "h' = h1" by simp
    with len1 tn1 show ?thesis by simp
  next
    case True
    with Cons.prems(4) it have run: "merge_others_h call h1 m others = (h', ok)" by simp
    from len1 Cons.prems(3) have "n \<le> length h1" by simp
    from Cons.IH [OF Cons.prems(1,2) this run] len1 tn1 show ?thesis by simp
  qed
qed

lemma deepmerge_body_frame:
  assumes "framed call" and "deepmerge_body call h mapping others = (h', r)"
  shows "length h \<le> length h' \<and> take (length h) h' = h \<and>
         (\<forall>x. r = Some x \<longrightarrow> x = length h \<and> x < length h')"
proof (cases "mapping < length h \<and> list_all (\<lambda>other. other < length h) others")
  case False
  with assms(2) show ?thesis by (auto simp: deepmerge_body_def)
next
  case True
  let ?h0 = "h @ [h ! mapping]"
  obtain h1 ok where lo: "merge_others_h call ?h0 (length h) others = (h1, ok)"
    by (cases "merge_others_h call ?h0 (length h) others")
  have "length h \<le> length ?h0" by simp
  from merge_others_h_frame [OF assms(1) order_refl this lo]
  have len: "length ?h0 \<le> length h1" and tk: "take (length h) h1 = take (length h) ?h0" by simp_all
  from assms(2) True lo have h': "h' = h1" and r: "r = (if ok then Some (length h) else None)"
    by (auto simp: deepmerge_body_def copy_h_def split: bool.splits)
  from len tk show ?thesis by (simp add: h' r)
qed

lemma deepmerge_h_framed: "framed (\<lambda>h a b. deepmerge_h depth h a [b])"
proof (induction depth)
  case 0
  have "framed (\<lambda>(h :: 'a heap) (a :: addr) (b :: addr). (h, None :: addr option))"
    by (simp add: framed_def)
  from deepmerge_body_frame [OF this] show ?case
    unfolding framed_def by simp
next
  case (Suc depth)
  from deepmerge_body_frame [OF Suc] show ?case
    unfolding framed_def by simp
qed

lemma deepmerge_h_frame:
  assumes "deepmerge_h depth h mapping others = (h', r)"
  shows "length h \<le> length h' \<and> take (length h) h' = h \<and>
         (\<forall>x. r = Some x \<longrightarrow> x = length h \<and> x < length h')"
proof (cases depth)
  case 0
  have "framed (\<lambda>(h :: 'a heap) (a :: addr) (b :: addr). (h, None :: addr option))"
    by (simp add: framed_def)
  from deepmerge_body_frame [OF this] assms 0 show ?thesis by simp
next
  case (Suc d)
  from deepmerge_body_frame [OF deepmerge_h_framed [of d]] assms Suc show ?thesis by simp
qed

lemma deepmerge_h_body:
  "\<exists>call. framed call \<and> deepmerge_h depth h mapping others = deepmerge_body call h mapping others"
proof (cases depth)
  case 0
  have "framed (\<lambda>(h :: 'a heap) (a :: addr) (b :: addr). (h, None :: addr option))"
    by (simp add: framed_def)
  with 0 show ?thesis by auto
next
  case (Suc d)
  with deepmerge_h_framed [of d] show ?thesis by auto
qed

text \<open>
  C6. Whatever the overrides and the recursion depth, the object passed as \<open>mapping\<close> holds
  the same items after the call as before it. With no override the call returns, for every
  depth, and its result is a new object (another address) with the items of the base.
\<close>

theorem deepmerge_h_base_untouched:
  assumes "mapping < length h"
  shows "fst (deepmerge_h depth h mapping others) ! mapping = h ! mapping \<and>
         (\<exists>h' r. deepmerge_h depth h mapping [] = (h', Some r) \<and> r \<noteq> mapping \<and>
                  h' ! r = h ! mapping \<and> h' ! mapping = h ! mapping)"
proof
  obtain h' r where run: "deepmerge_h depth h mapping others = (h', r)"
    by (cases "deepmerge_h depth h mapping others")
  from deepmerge_h_frame [OF run] have "take (length h) h' = h" by simp
  with assms have "h' ! mapping = h ! mapping" by (metis nth_take)
  with run show "fst (deepmerge_h depth h mapping others) ! mapping = h ! mapping" by simp
next
  from assms have "deepmerge_h depth h mapping [] = (h @ [h ! mapping], Some (length h))"
    by (cases depth) (simp_all add: deepmerge_body_def copy_h_def)
  with assms show "\<exists>h' r. deepmerge_h depth h mapping [] = (h', Some r) \<and> r \<noteq> mapping \<and>
                  h' ! r = h ! mapping \<and> h' ! mapping = h ! mapping"
    by (simp add: nth_append)
qed

theorem deepmerge_h_base_untouched_witness:
  "fst (deepmerge_h 2 doctest_heap 1 [3]) ! 1 = [(''foo'', Leaf (VStr ''bar'')), (''more'', Ref 0)] \<and>
   (\<exists>h' r. deepmerge_h 2 doctest_heap 1 [] = (h', Some r) \<and> r \<noteq> 1 \<and>
            h' ! r = doctest_heap ! 1 \<and> h' ! 1 = doctest_heap ! 1)"
proof -
  have "(1::nat) < length doctest_heap" by (simp add: doctest_heap_def)
  from deepmerge_h_base_untouched [OF this, of 2 "[3]"] show ?thesis
    by (simp add: doctest_heap_def)
qed

text \<open>Within one override a key is assigned once, so a binding made for \<open>k\<close> stays.\<close>

lemma merge_items_h_keeps_key:
  "framed call \<Longrightarrow> m < length h \<Longrightarrow> k \<notin> fst ` set items \<Longrightarrow>
   merge_items_h call h m items = (h', ok) \<Longrightarrow> dict_get (h' ! m) k = dict_get (h ! m) k"
proof (induction items arbitrary: h)
  case Nil
  then show ?case by simp
next
  case (Cons p items)
  obtain k0 v where p: "p = (k0, v)" by (cases p)
  from Cons.prems(3) have ne: "k \<noteq> k0" and notin: "k \<notin> fst ` set items" by (auto simp: p)
  show ?case
  proof (cases "\<exists>a b. dict_get (h ! m) k0 = Some (Ref a) \<and> v = Ref b")
    case True
    then obtain a b where cur: "dict_get (h ! m) k0 = Some (Ref a)" and v: "v = Ref b" by blast
    obtain h1 r where c: "call h a b = (h1, r)" by (cases "call h a b")
    from framedD [OF Cons.prems(1) c]
    have len1: "length h \<le> length h1" and tk1: "take (length h) h1 = h" by simp_all
    from Cons.prems(2) tk1 have same: "h1 ! m = h ! m"
      by (metis nth_take)
    show ?thesis
    proof (cases r)
      case None
      with Cons.prems(4) c cur v p have "h' = h1" by simp
      with same show ?thesis by simp
    next
      case (Some x)
      let ?h2 = "setitem_h h1 m k0 (Ref x)"
      from Cons.prems(4) c cur v p Some have run: "merge_items_h call ?h2 m items = (h', ok)" by simp
      from len1 Cons.prems(2) have m2: "m < length ?h2" by (simp add: setitem_h_length)
      from len1 Cons.prems(2) have "dict_get (?h2 ! m) k = dict_get (h1 ! m) k"
        by (simp add: setitem_h_def dict_get_set ne)
      with Cons.IH [OF Cons.prems(1) m2 notin run] same show ?thesis by simp
    qed
  next
    case False
    let ?h2 = "setitem_h h m k0 v"
    from False Cons.prems(4) p have run: "merge_items_h call ?h2 m items = (h', ok)"
      by (auto split: option.splits hval.splits)
    from Cons.prems(2) have m2: "m < length ?h2" by (simp add: setitem_h_length)
    from Cons.prems(2) have "dict_get (?h2 ! m) k = dict_get (h ! m) k"
      by (simp add: setitem_h_def dict_get_set ne)
    with Cons.IH [OF Cons.prems(1) m2 notin run] show ?thesis by simp
  qed
qed

lemma merge_items_h_fresh:
  "framed call \<Longrightarrow> m < length h \<Longrightarrow> distinct (map fst items) \<Longrightarrow> map_of items k = Some (Ref b) \<Longrightarrow>
   dict_get (h ! m) k = Some (Ref a) \<Longrightarrow> merge_items_h call h m items = (h', True) \<Longrightarrow>
   \<exists>c. dict_get (h' ! m) k = Some (Ref c) \<and> length h \<le> c \<and> c < length h'"
proof (induction items arbitrary: h)
  case Nil
  then show ?case by simp
next
  case (Cons p items)
  obtain k0 v where p: "p = (k0, v)" by (cases p)
  from Cons.prems(3) have dist: "distinct (map fst items)" and notin: "k0 \<notin> fst ` set items"
    by (auto simp: p)
  show ?case
  proof (cases "k0 = k")
    case True
    with Cons.prems(4) have v: "v = Ref b" by (simp add: p)
    obtain h1 r where c: "call h a b = (h1, r)" by (cases "call h a b")
    from Cons.prems(6) c Cons.prems(5) v p True obtain x where r: "r = Some x"
      by (cases r) auto
    from framedD [OF Cons.prems(1) c] r
    have len1: "length h \<le> length h1" and x: "length h \<le> x" "x < length h1" by simp_all
    let ?h2 = "setitem_h h1 m k (Ref x)"
    from Cons.prems(6) c Cons.prems(5) v p True r
    have run: "merge_items_h call ?h2 m items = (h', True)" by simp
    from len1 Cons.prems(2) have m2: "m < length ?h2" by (simp add: setitem_h_length)
    from notin True have "k \<notin> fst ` set items" by simp
    from merge_items_h_keeps_key [OF Cons.prems(1) m2 this run] len1 Cons.prems(2)
    have "dict_get (h' ! m) k = Some (Ref x)"
      by (simp add: setitem_h_def dict_get_set)
    moreover from merge_items_h_frame [OF Cons.prems(1) le0 le0 run]
    have "length h1 \<le> length h'" by (simp add: setitem_h_length)
    ultimately show ?thesis using x by auto
  next
    case ne: False
    with Cons.prems(4) have mk: "map_of items k = Some (Ref b)" by (simp add: p)
    show ?thesis
    proof (cases "\<exists>a0 b0. dict_get (h ! m) k0 = Some (Ref a0) \<and> v = Ref b0")
      case True
      then obtain a0 b0 where cur: "dict_get (h ! m) k0 = Some (Ref a0)" and v: "v = Ref b0" by blast
      obtain h1 r where c: "call h a0 b0 = (h1, r)" by (cases "call h a0 b0")
      from Cons.prems(6) c cur v p obtain x where r: "r = Some x"
        by (cases r) auto
      from framedD [OF Cons.prems(1) c]
      have len1: "length h \<le> length h1" and tk1: "take (length h) h1 = h" by simp_all
      from Cons.prems(2) tk1 have same: "h1 ! m = h ! m"
        by (metis nth_take)
      let ?h2 = "setitem_h h1 m k0 (Ref x)"
      from Cons.prems(6) c cur v p r have run: "merge_items_h call ?h2 m items = (h', True)" by simp
      from len1 Cons.prems(2) have m2: "m < length ?h2" by (simp add: setitem_h_length)
      from len1 Cons.prems(2) Cons.prems(5) same ne have "dict_get (?h2 ! m) k = Some (Ref a)"
        by (simp add: setitem_h_def dict_get_set)
      from Cons.IH [OF Cons.prems(1) m2 dist mk this run] len1 show ?thesis
        by (auto simp: setitem_h_length)
    next
      case False
      let ?h2 = "setitem_h h m k0 v"
      from False Cons.prems(6) p have run: "merge_items_h call ?h2 m items = (h', True)"
        by (auto split: option.splits hval.splits)
      from Cons.prems(2) have m2: "m < length ?h2" by (simp add: setitem_h_length)
      from Cons.prems(2) Cons.prems(5) ne have "dict_get (?h2 ! m) k = Some (Ref a)"
        by (simp add: setitem_h_def dict_get_set)
      from Cons.IH [OF Cons.prems(1) m2 dist mk this run] show ?thesis
        by (auto simp: setitem_h_length)
    qed
  qed
qed

lemma deepmerge_h_fresh_nested:
  assumes run: "deepmerge_h depth h mapping [other] = (h', Some r)"
    and wf: "wf_dict (h ! other)"
    and base: "dict_get (h ! mapping) k = Some (Ref a)"
    and ov: "dict_get (h ! other) k = Some (Ref b)"
  shows "\<exists>c. dict_get (h' ! r) k = Some (Ref c) \<and> length h < c \<and> c < length h'"
proof -
  obtain call where fr: "framed call"
    and body: "deepmerge_h depth h mapping [other] = deepmerge_body call h mapping [other]"
    using deepmerge_h_body by blast
  from run body have valid: "mapping < length h" "other < length h"
    by (auto simp: deepmerge_body_def split: if_splits)
  let ?h0 = "h @ [h ! mapping]"
  from run body valid have r: "r = length h"
    and items: "merge_items_h call ?h0 (length h) (?h0 ! other) = (h', True)"
    by (auto simp: deepmerge_body_def copy_h_def split: prod.splits bool.splits)
  from valid have o0: "?h0 ! other = h ! other" by (simp add: nth_append)
  have m0: "length h < length ?h0" by simp
  from wf have dist: "distinct (map fst (h ! other))" by (simp add: wf_dict_def)
  from ov have mo: "map_of (h ! other) k = Some (Ref b)" by (simp add: dict_get_def)
  from base have b0: "dict_get (?h0 ! length h) k = Some (Ref a)" by simp
  from merge_items_h_fresh [OF fr m0 dist mo b0] items o0 r show ?thesis
    by auto
qed

lemma doctest_run:
  "deepmerge_h 2 doctest_heap 1 [3] =
     (doctest_heap @
        [[(''foo'', Leaf (VStr ''not-bar'')), (''more'', Ref 5), (''num'', Leaf (VInt 23))],
         [(''cond'', Leaf (VStr ''true'')), (''last'', Leaf (VInt 424)), (''additional'', Leaf (VInt 333))]],
      Some 4)"
  by code_simp

text \<open>
  C9. No object that existed before the call is changed, at any depth: the heap after the
  call begins with the heap before it, whether the call returns or raises; this covers the
  base, the overrides and every dictionary nested in them. Where a key is bound to a
  dictionary in both the base and the override, the result binds it to a dictionary that
  was allocated during the call, and the nested base dictionary stays as it was.
\<close>

theorem deepmerge_h_never_mutates:
  "take (length h) (fst (deepmerge_h depth h mapping others)) = h \<and>
   (\<forall>other r k a b.
      snd (deepmerge_h depth h mapping [other]) = Some r \<and> wf_dict (h ! other) \<and>
      dict_get (h ! mapping) k = Some (Ref a) \<and> dict_get (h ! other) k = Some (Ref b) \<longrightarrow>
      (\<exists>c. dict_get (fst (deepmerge_h depth h mapping [other]) ! r) k = Some (Ref c) \<and>
           length h < c \<and> c < length (fst (deepmerge_h depth h mapping [other]))))"
proof (intro conjI allI impI)
  obtain h' r where run: "deepmerge_h depth h mapping others = (h', r)"
    by (cases "deepmerge_h depth h mapping others")
  from deepmerge_h_frame [OF run] run
  show "take (length h) (fst (deepmerge_h depth h mapping others)) = h" by simp
next
  fix other r k a b
  assume a: "snd (deepmerge_h depth h mapping [other]) = Some r \<and> wf_dict (h ! other) \<and>
      dict_get (h ! mapping) k = Some (Ref a) \<and> dict_get (h ! other) k = Some (Ref b)"
  obtain h' where run: "deepmerge_h depth h mapping [other] = (h', Some r)"
    using a by (cases "deepmerge_h depth h mapping [other]") auto
  from a have wf: "wf_dict (h ! other)" and base: "dict_get (h ! mapping) k = Some (Ref a)"
    and ov: "dict_get (h ! other) k = Some (Ref b)" by simp_all
  from deepmerge_h_fresh_nested [OF run wf base ov] run
  show "\<exists>c. dict_get (fst (deepmerge_h depth h mapping [other]) ! r) k = Some (Ref c) \<and>
           length h < c \<and> c < length (fst (deepmerge_h depth h mapping [other]))"
    by simp
qed

theorem deepmerge_h_never_mutates_witness:
  "take 4 (fst (deepmerge_h 2 doctest_heap 1 [3])) = doctest_heap \<and>
   snd (deepmerge_h 2 doctest_heap 1 [3]) = Some 4 \<and>
   dict_get (doctest_heap ! 1) ''more'' = Some (Ref 0) \<and>
   dict_get (doctest_heap ! 3) ''more'' = Some (Ref 2) \<and>
   dict_get (fst (deepmerge_h 2 doctest_heap 1 [3]) ! 4) ''more'' = Some (Ref 5) \<and>
   (\<exists>c. dict_get (fst (deepmerge_h 2 doctest_heap 1 [3]) ! 4) ''more'' = Some (Ref c) \<and>
        length doctest_heap < c \<and> c < length (fst (deepmerge_h 2 doctest_heap 1 [3])))"
proof -
  have len: "length doctest_heap = 4" by (simp add: doctest_heap_def)
  have s: "snd (deepmerge_h 2 doctest_heap 1 [3]) = Some 4" unfolding doctest_run by simp
  have wf: "wf_dict (doctest_heap ! 3)" by (simp add: doctest_heap_def wf_dict_def)
  have b: "dict_get (doctest_heap ! 1) ''more'' = Some (Ref 0)"
    by (simp add: doctest_heap_def dict_get_def)
  have ov: "dict_get (doctest_heap ! 3) ''more'' = Some (Ref 2)"
    by (simp add: doctest_heap_def dict_get_def)
  have v: "dict_get (fst (deepmerge_h 2 doctest_heap 1 [3]) ! 4) ''more'' = Some (Ref 5)"
    unfolding doctest_run by (simp add: doctest_heap_def dict_get_def nth_append)
  note inst = deepmerge_h_never_mutates [of doctest_heap 2 1 "[3]"]
  from inst have t: "take 4 (fst (deepmerge_h 2 doctest_heap 1 [3])) = doctest_heap"
    by (simp add: len)
  from inst s wf b ov
  have "\<exists>c. dict_get (fst (deepmerge_h 2 doctest_heap 1 [3]) ! 4) ''more'' = Some (Ref c) \<and>
        length doctest_heap < c \<and> c < length (fst (deepmerge_h 2 doctest_heap 1 [3]))"
    by blast
  with t s b ov v show ?thesis by simp
qed


section \<open>The heap model computes the merge on values\<close>

lemma rep_in_Ref: "rep_in S h (Ref a) (VDict d) \<longleftrightarrow> a \<in> S \<and> a < length h \<and> rep_items S h (h ! a) d"
  unfolding rep_items_def
  by (auto intro: rep_in.intros elim: rep_in.cases)

lemma rep_in_VDictD: "rep_in S h v (VDict e) \<Longrightarrow> \<exists>b. v = Ref b"
  by (erule rep_in.cases) auto

lemma rep_in_RefD: "rep_in S h (Ref a) x \<Longrightarrow> \<exists>d. x = VDict d"
  by (erule rep_in.cases) auto

lemma rep_in_transfer:
  assumes "rep_in S h v x" and "S \<subseteq> S'"
    and "\<And>a. a \<in> S \<Longrightarrow> a < length h \<Longrightarrow> a < length h' \<and> h' ! a = h ! a"
  shows "rep_in S' h' v x"
  using assms(1)
proof (induction rule: rep_in.induct)
  case (rep_leaf x)
  then show ?case by (rule rep_in.rep_leaf)
next
  case (rep_ref a d)
  from rep_ref(3) have "list_all2 (\<lambda>p q. fst p = fst q \<and> rep_in S' h' (snd p) (snd q)) (h ! a) d"
    by (rule list_all2_mono) simp
  with rep_ref(1,2) assms(2) assms(3) [of a] show ?case
    by (auto intro!: rep_in.rep_ref)
qed

lemma rep_items_transfer:
  assumes "rep_items S h items d" and "S \<subseteq> S'"
    and "\<And>a. a \<in> S \<Longrightarrow> a < length h \<Longrightarrow> a < length h' \<and> h' ! a = h ! a"
  shows "rep_items S' h' items d"
  using assms(1) unfolding rep_items_def
  by (rule list_all2_mono) (auto intro: rep_in_transfer [OF _ assms(2,3)])

lemma rep_items_get:
  "rep_items S h items d \<Longrightarrow> rel_option (rep_in S h) (dict_get items k) (dict_get d k)"
  unfolding rep_items_def dict_get_def
  by (induction rule: list_all2_induct) (auto simp: prod_eq_iff)

lemma rep_items_set:
  "rep_items S h items d \<Longrightarrow> rep_in S h v x \<Longrightarrow> rep_items S h (dict_set k v items) (dict_set k x d)"
  unfolding rep_items_def
  by (induction rule: list_all2_induct) (auto simp: prod_eq_iff)

lemma rep_items_frame:
  assumes "rep_items S h items d" and "m \<notin> S" and "S \<subseteq> {..<length h}"
    and "length h \<le> length h'" and "\<forall>a<length h. a \<noteq> m \<longrightarrow> h' ! a = h ! a" and "S \<subseteq> S'"
  shows "rep_items S' h' items d"
proof (rule rep_items_transfer [OF assms(1) assms(6)])
  fix a assume "a \<in> S" and "a < length h"
  with assms(2,4,5) show "a < length h' \<and> h' ! a = h ! a" by auto
qed

lemma rep_in_frame:
  assumes "rep_in S h v x" and "m \<notin> S" and "S \<subseteq> {..<length h}"
    and "length h \<le> length h'" and "\<forall>a<length h. a \<noteq> m \<longrightarrow> h' ! a = h ! a" and "S \<subseteq> S'"
  shows "rep_in S' h' v x"
proof (rule rep_in_transfer [OF assms(1) assms(6)])
  fix a assume "a \<in> S" and "a < length h"
  with assms(2,4,5) show "a < length h' \<and> h' ! a = h ! a" by auto
qed

lemma setitem_h_other: "a \<noteq> m \<Longrightarrow> setitem_h h m k v ! a = h ! a"
  by (simp add: setitem_h_def)

lemma setitem_h_same: "m < length h \<Longrightarrow> setitem_h h m k v ! m = dict_set k v (h ! m)"
  by (simp add: setitem_h_def)

lemma merge_items_h_plain:
  "\<not> (\<exists>a b. dict_get (h ! m) k = Some (Ref a) \<and> v = Ref b) \<Longrightarrow>
   merge_items_h call h m ((k, v) # items) = merge_items_h call (setitem_h h m k v) m items"
  by (auto split: option.splits hval.splits)

lemma merge_items_h_nested:
  "dict_get (h ! m) k = Some (Ref a) \<Longrightarrow> call h a b = (h1, Some r) \<Longrightarrow>
   merge_items_h call h m ((k, Ref b) # items) = merge_items_h call (setitem_h h1 m k (Ref r)) m items"
  by simp

text \<open>
  The statements of the induction, one for each loop and one for the call. From a heap in
  which the current mapping and the overrides are represented without going through the
  mapping's own address \<open>m\<close>, the loop ends for every depth from some \<open>D\<close> on, always
  in the same heap; it has written to \<open>m\<close> and to new addresses only, and \<open>m\<close> then
  represents the merge on values.
\<close>

definition items_ok :: "pyval dict \<Rightarrow> pyval dict \<Rightarrow> bool" where
  "items_ok mapping items =
     (\<forall>h m its S.
        m < length h \<and> m \<notin> S \<and> S \<subseteq> {..<length h} \<and>
        rep_items S h (h ! m) mapping \<and> rep_items S h its items \<longrightarrow>
        (\<exists>D h'. (\<forall>d\<ge>D. merge_items_h (\<lambda>h a b. deepmerge_h d h a [b]) h m its = (h', True)) \<and>
           length h \<le> length h' \<and> (\<forall>a<length h. a \<noteq> m \<longrightarrow> h' ! a = h ! a) \<and>
           rep_items (S \<union> {length h..<length h'}) h' (h' ! m) (merge_other mapping items)))"

definition others_ok :: "pyval dict \<Rightarrow> pyval dict list \<Rightarrow> bool" where
  "others_ok mapping ovs =
     (\<forall>h m os S.
        m < length h \<and> m \<notin> S \<and> S \<subseteq> {..<length h} \<and>
        rep_items S h (h ! m) mapping \<and>
        list_all2 (\<lambda>other ov. other \<in> S \<and> rep_items S h (h ! other) ov) os ovs \<longrightarrow>
        (\<exists>D h'. (\<forall>d\<ge>D. merge_others_h (\<lambda>h a b. deepmerge_h d h a [b]) h m os = (h', True)) \<and>
           length h \<le> length h' \<and> (\<forall>a<length h. a \<noteq> m \<longrightarrow> h' ! a = h ! a) \<and>
           rep_items (S \<union> {length h..<length h'}) h' (h' ! m) (deepmerge mapping ovs)))"

definition call_ok :: "pyval dict \<Rightarrow> pyval dict list \<Rightarrow> bool" where
  "call_ok base ovs =
     (\<forall>h a os S.
        S \<subseteq> {..<length h} \<and> a \<in> S \<and> rep_items S h (h ! a) base \<and>
        list_all2 (\<lambda>other ov. other \<in> S \<and> rep_items S h (h ! other) ov) os ovs \<longrightarrow>
        (\<exists>D h'. (\<forall>d\<ge>D. deepmerge_h d h a os = (h', Some (length h))) \<and>
           length h < length h' \<and> take (length h) h' = h \<and>
           rep_items (S \<union> {length h..<length h'}) h' (h' ! length h) (deepmerge base ovs)))"

lemma call_from_others:
  assumes "others_ok base ovs"
  shows "call_ok base ovs"
  unfolding call_ok_def
proof (intro allI impI)
  fix h :: "pyval heap" and a os S
  assume pre: "S \<subseteq> {..<length h} \<and> a \<in> S \<and> rep_items S h (h ! a) base \<and>
        list_all2 (\<lambda>other ov. other \<in> S \<and> rep_items S h (h ! other) ov) os ovs"
  let ?h0 = "h @ [h ! a]"
  let ?m = "length h"
  from pre have S: "S \<subseteq> {..<length h}" and a: "a \<in> S" and ra: "rep_items S h (h ! a) base"
    and ro: "list_all2 (\<lambda>other ov. other \<in> S \<and> rep_items S h (h ! other) ov) os ovs"
    by simp_all
  from S a have alt: "a < length h" by auto
  have ext: "\<And>b. b \<in> S \<Longrightarrow> b < length h \<Longrightarrow> b < length ?h0 \<and> ?h0 ! b = h ! b"
    by (simp add: nth_append)
  have m0: "?m < length ?h0" by simp
  from S have mS: "?m \<notin> S" by auto
  from S have S0: "S \<subseteq> {..<length ?h0}" by auto
  from rep_items_transfer [OF ra subset_refl ext] have r0: "rep_items S ?h0 (?h0 ! ?m) base"
    by simp
  from S have ineq: "\<And>other. other \<in> S \<Longrightarrow> ?h0 ! other = h ! other"
    by (auto simp: nth_append)
  from ro have ro0: "list_all2 (\<lambda>other ov. other \<in> S \<and> rep_items S ?h0 (?h0 ! other) ov) os ovs"
    by (rule list_all2_mono) (auto simp: ineq intro: rep_items_transfer [OF _ subset_refl ext])
  from assms [unfolded others_ok_def, rule_format, of ?m ?h0 S os] m0 mS S0 r0 ro0
  obtain D h' where run: "\<forall>d\<ge>D. merge_others_h (\<lambda>h a b. deepmerge_h d h a [b]) ?h0 ?m os = (h', True)"
    and len: "length ?h0 \<le> length h'"
    and fr: "\<forall>b<length ?h0. b \<noteq> ?m \<longrightarrow> h' ! b = ?h0 ! b"
    and rep: "rep_items (S \<union> {length ?h0..<length h'}) h' (h' ! ?m) (deepmerge base ovs)"
    by blast
  from ro S have valid: "list_all (\<lambda>other. other < length h) os"
    by (induction rule: list_all2_induct) auto
  have "\<forall>d\<ge>Suc D. deepmerge_h d h a os = (h', Some ?m)"
  proof (intro allI impI)
    fix d assume "Suc D \<le> d"
    then obtain d' where d: "d = Suc d'" and "D \<le> d'" by (cases d) auto
    with run have "merge_others_h (\<lambda>h a b. deepmerge_h d' h a [b]) ?h0 ?m os = (h', True)" by blast
    with alt valid show "deepmerge_h d h a os = (h', Some ?m)"
      by (simp add: d deepmerge_body_def copy_h_def)
  qed
  moreover from len have "length h < length h'" by simp
  moreover have "take (length h) h' = h"
  proof (rule nth_equalityI)
    from len show "length (take (length h) h') = length h" by simp
  next
    fix i assume "i < length (take (length h) h')"
    with len have i: "i < length h" by simp
    with fr have "h' ! i = ?h0 ! i" by simp
    with i show "take (length h) h' ! i = h ! i" by (simp add: nth_append)
  qed
  moreover from rep have "rep_items (S \<union> {length h..<length h'}) h' (h' ! ?m) (deepmerge base ovs)"
    by (rule rep_items_transfer) auto
  ultimately show "\<exists>D h'. (\<forall>d\<ge>D. deepmerge_h d h a os = (h', Some (length h))) \<and>
           length h < length h' \<and> take (length h) h' = h \<and>
           rep_items (S \<union> {length h..<length h'}) h' (h' ! length h) (deepmerge base ovs)"
    by blast
qed

lemma items_ok_step:
  assumes nested: "\<And>dv e. dict_get mapping k = Some (VDict dv) \<Longrightarrow> v = VDict e \<Longrightarrow> others_ok dv [e]"
    and rest: "items_ok (dict_set k (merged_value (dict_get mapping k) v) mapping) items"
  shows "items_ok mapping ((k, v) # items)"
  unfolding items_ok_def
proof (intro allI impI)
  fix h :: "pyval heap" and m its S
  assume pre: "m < length h \<and> m \<notin> S \<and> S \<subseteq> {..<length h} \<and>
        rep_items S h (h ! m) mapping \<and> rep_items S h its ((k, v) # items)"
  then have m: "m < length h" and mS: "m \<notin> S" and S: "S \<subseteq> {..<length h}"
    and rm: "rep_items S h (h ! m) mapping" and ri: "rep_items S h its ((k, v) # items)"
    by simp_all
  from ri obtain hv its' where its: "its = (k, hv) # its'" and rv: "rep_in S h hv v"
    and ri': "rep_items S h its' items"
    unfolding rep_items_def by (auto simp: list_all2_Cons2 prod_eq_iff)
  let ?mapping' = "dict_set k (merged_value (dict_get mapping k) v) mapping"
  have step: "merge_other mapping ((k, v) # items) = merge_other ?mapping' items"
    by (rule merge_other_step)
  from rep_items_get [OF rm, of k]
  have rel: "rel_option (rep_in S h) (dict_get (h ! m) k) (dict_get mapping k)" .
  show "\<exists>D h'. (\<forall>d\<ge>D. merge_items_h (\<lambda>h a b. deepmerge_h d h a [b]) h m its = (h', True)) \<and>
           length h \<le> length h' \<and> (\<forall>a<length h. a \<noteq> m \<longrightarrow> h' ! a = h ! a) \<and>
           rep_items (S \<union> {length h..<length h'}) h' (h' ! m) (merge_other mapping ((k, v) # items))"
  proof (cases "\<exists>dv e. dict_get mapping k = Some (VDict dv) \<and> v = VDict e")
    case True
    then obtain dv e where cur: "dict_get mapping k = Some (VDict dv)" and v: "v = VDict e" by blast
    from rel cur obtain hv0 where hcur0: "dict_get (h ! m) k = Some hv0" and r0: "rep_in S h hv0 (VDict dv)"
      by (cases "dict_get (h ! m) k") auto
    from rep_in_VDictD [OF r0] obtain a where hv0: "hv0 = Ref a" by blast
    from r0 hv0 have a: "a \<in> S" and ra: "rep_items S h (h ! a) dv"
      by (simp_all add: rep_in_Ref)
    from rv v rep_in_VDictD obtain b where hv: "hv = Ref b" by blast
    from rv v hv have b: "b \<in> S" and rb: "rep_items S h (h ! b) e"
      by (simp_all add: rep_in_Ref)
    from call_from_others [OF nested [OF cur v]] have "call_ok dv [e]" .
    from this [unfolded call_ok_def, rule_format, of S h a "[b]"] S a ra b rb
    obtain D1 h1 where run1: "\<forall>d\<ge>D1. deepmerge_h d h a [b] = (h1, Some (length h))"
      and len1: "length h < length h1" and tk1: "take (length h) h1 = h"
      and rep1: "rep_items (S \<union> {length h..<length h1}) h1 (h1 ! length h) (deepmerge dv [e])"
      by auto
    let ?r = "length h"
    let ?S1 = "S \<union> {length h..<length h1}"
    let ?h2 = "setitem_h h1 m k (Ref ?r)"
    have same1: "\<forall>a<length h. h1 ! a = h ! a"
      using tk1 by (metis nth_take)
    from len1 rep1 have rr: "rep_in ?S1 h1 (Ref ?r) (VDict (deepmerge dv [e]))"
      by (simp add: rep_in_Ref)
    from m mS have mS1: "m \<notin> ?S1" by auto
    from S len1 have S1sub: "?S1 \<subseteq> {..<length h1}" by auto
    have fr12: "\<forall>a<length h1. a \<noteq> m \<longrightarrow> ?h2 ! a = h1 ! a"
      by (simp add: setitem_h_other)
    have len2: "length ?h2 = length h1" by (simp add: setitem_h_length)
    have fr2: "\<forall>a<length h. a \<noteq> m \<longrightarrow> ?h2 ! a = h ! a"
      using same1 by (simp add: setitem_h_other)
    from len1 have le2: "length h \<le> length ?h2" by (simp add: len2)
    from m len1 same1 have h2m: "?h2 ! m = dict_set k (Ref ?r) (h ! m)"
      by (simp add: setitem_h_same)
    have rr2: "rep_in ?S1 ?h2 (Ref ?r) (VDict (deepmerge dv [e]))"
      by (rule rep_in_frame [OF rr mS1 S1sub _ fr12 subset_refl]) (simp add: len2)
    have rm2: "rep_items ?S1 ?h2 (h ! m) mapping"
      by (rule rep_items_frame [OF rm mS S le2 fr2]) simp
    from cur v have mv: "merged_value (dict_get mapping k) v = VDict (deepmerge dv [e])"
      by (simp add: merged_value_def)
    from rep_items_set [OF rm2 rr2, of k] have rm2': "rep_items ?S1 ?h2 (?h2 ! m) ?mapping'"
      by (simp add: h2m mv)
    have ri2: "rep_items ?S1 ?h2 its' items"
      by (rule rep_items_frame [OF ri' mS S le2 fr2]) simp
    from m len1 have m2: "m < length ?h2" by (simp add: len2)
    from S1sub have S1sub2: "?S1 \<subseteq> {..<length ?h2}" by (simp add: len2)
    from rest [unfolded items_ok_def, rule_format, of m ?h2 ?S1 its'] m2 mS1 S1sub2 rm2' ri2
    obtain D2 h' where run2: "\<forall>d\<ge>D2. merge_items_h (\<lambda>h a b. deepmerge_h d h a [b]) ?h2 m its' = (h', True)"
      and len': "length ?h2 \<le> length h'"
      and fr': "\<forall>a<length ?h2. a \<noteq> m \<longrightarrow> h' ! a = ?h2 ! a"
      and rep': "rep_items (?S1 \<union> {length ?h2..<length h'}) h' (h' ! m) (merge_other ?mapping' items)"
      by blast
    have "\<forall>d\<ge>max D1 D2. merge_items_h (\<lambda>h a b. deepmerge_h d h a [b]) h m its = (h', True)"
    proof (intro allI impI)
      fix d assume d: "max D1 D2 \<le> d"
      with run1 have c: "deepmerge_h d h a [b] = (h1, Some ?r)" by simp
      from d run2 have "merge_items_h (\<lambda>h a b. deepmerge_h d h a [b]) ?h2 m its' = (h', True)" by simp
      with merge_items_h_nested [of h m k a "\<lambda>h a b. deepmerge_h d h a [b]" b h1 ?r its'] hcur0 hv0 c
      show "merge_items_h (\<lambda>h a b. deepmerge_h d h a [b]) h m its = (h', True)"
        by (simp add: its hv)
    qed
    moreover from le2 len' have "length h \<le> length h'" by simp
    moreover from fr2 fr' le2 have "\<forall>a<length h. a \<noteq> m \<longrightarrow> h' ! a = h ! a" by auto
    moreover from rep' have "rep_items (S \<union> {length h..<length h'}) h' (h' ! m) (merge_other ?mapping' items)"
      by (rule rep_items_transfer) (use len1 len' in \<open>auto simp: len2\<close>)
    ultimately show ?thesis unfolding step by blast
  next
    case False
    then have mv: "merged_value (dict_get mapping k) v = v"
      by (auto simp: merged_value_def split: option.splits pyval.splits)
    have plain: "\<not> (\<exists>a b. dict_get (h ! m) k = Some (Ref a) \<and> hv = Ref b)"
    proof
      assume "\<exists>a b. dict_get (h ! m) k = Some (Ref a) \<and> hv = Ref b"
      then obtain a b where hc: "dict_get (h ! m) k = Some (Ref a)" and hv: "hv = Ref b" by blast
      from rel hc obtain x where cx: "dict_get mapping k = Some x" and rx: "rep_in S h (Ref a) x"
        by (cases "dict_get mapping k") auto
      from rep_in_RefD [OF rx] rep_in_RefD [OF rv [unfolded hv]] cx False show False by auto
    qed
    let ?h2 = "setitem_h h m k hv"
    have len2: "length ?h2 = length h" by (simp add: setitem_h_length)
    have fr2: "\<forall>a<length h. a \<noteq> m \<longrightarrow> ?h2 ! a = h ! a" by (simp add: setitem_h_other)
    from m have h2m: "?h2 ! m = dict_set k hv (h ! m)" by (simp add: setitem_h_same)
    have le2: "length h \<le> length ?h2" by (simp add: len2)
    have rv2: "rep_in S ?h2 hv v"
      by (rule rep_in_frame [OF rv mS S le2 fr2 subset_refl])
    have rm2: "rep_items S ?h2 (h ! m) mapping"
      by (rule rep_items_frame [OF rm mS S le2 fr2 subset_refl])
    from rep_items_set [OF rm2 rv2, of k] have rm2': "rep_items S ?h2 (?h2 ! m) ?mapping'"
      by (simp add: h2m mv)
    have ri2: "rep_items S ?h2 its' items"
      by (rule rep_items_frame [OF ri' mS S le2 fr2 subset_refl])
    from m have m2: "m < length ?h2" by (simp add: len2)
    from S have S2: "S \<subseteq> {..<length ?h2}" by (simp add: len2)
    from rest [unfolded items_ok_def, rule_format, of m ?h2 S its'] m2 mS S2 rm2' ri2
    obtain D2 h' where run2: "\<forall>d\<ge>D2. merge_items_h (\<lambda>h a b. deepmerge_h d h a [b]) ?h2 m its' = (h', True)"
      and len': "length ?h2 \<le> length h'"
      and fr': "\<forall>a<length ?h2. a \<noteq> m \<longrightarrow> h' ! a = ?h2 ! a"
      and rep': "rep_items (S \<union> {length ?h2..<length h'}) h' (h' ! m) (merge_other ?mapping' items)"
      by blast
    have "\<forall>d\<ge>D2. merge_items_h (\<lambda>h a b. deepmerge_h d h a [b]) h m its = (h', True)"
      unfolding its merge_items_h_plain [OF plain] using run2 .
    moreover from len' have "length h \<le> length h'" by (simp add: len2)
    moreover from fr2 fr' have "\<forall>a<length h. a \<noteq> m \<longrightarrow> h' ! a = h ! a" by (simp add: len2)
    moreover from rep' have "rep_items (S \<union> {length h..<length h'}) h' (h' ! m) (merge_other ?mapping' items)"
      by (simp add: len2)
    ultimately show ?thesis unfolding step by blast
  qed
qed

lemma items_ok_Nil: "items_ok mapping []"
  unfolding items_ok_def
proof (intro allI impI)
  fix h :: "pyval heap" and m its S
  assume pre: "m < length h \<and> m \<notin> S \<and> S \<subseteq> {..<length h} \<and>
        rep_items S h (h ! m) mapping \<and> rep_items S h its []"
  then have its: "its = []" by (simp add: rep_items_def)
  from pre have "rep_items (S \<union> {length h..<length h}) h (h ! m) (merge_other mapping [])" by simp
  then show "\<exists>D h'. (\<forall>d\<ge>D. merge_items_h (\<lambda>h a b. deepmerge_h d h a [b]) h m its = (h', True)) \<and>
           length h \<le> length h' \<and> (\<forall>a<length h. a \<noteq> m \<longrightarrow> h' ! a = h ! a) \<and>
           rep_items (S \<union> {length h..<length h'}) h' (h' ! m) (merge_other mapping [])"
    unfolding its by (intro exI [of _ 0] exI [of _ h]) simp
qed

lemma others_ok_Nil: "others_ok mapping []"
  unfolding others_ok_def
proof (intro allI impI)
  fix h :: "pyval heap" and m os S
  assume pre: "m < length h \<and> m \<notin> S \<and> S \<subseteq> {..<length h} \<and>
        rep_items S h (h ! m) mapping \<and>
        list_all2 (\<lambda>other ov. other \<in> S \<and> rep_items S h (h ! other) ov) os []"
  then have os: "os = []" by simp
  from pre have "rep_items (S \<union> {length h..<length h}) h (h ! m) (deepmerge mapping [])" by simp
  then show "\<exists>D h'. (\<forall>d\<ge>D. merge_others_h (\<lambda>h a b. deepmerge_h d h a [b]) h m os = (h', True)) \<and>
           length h \<le> length h' \<and> (\<forall>a<length h. a \<noteq> m \<longrightarrow> h' ! a = h ! a) \<and>
           rep_items (S \<union> {length h..<length h'}) h' (h' ! m) (deepmerge mapping [])"
    unfolding os by (intro exI [of _ 0] exI [of _ h]) simp
qed

lemma others_ok_step:
  assumes first: "items_ok mapping other"
    and rest: "others_ok (merge_other mapping other) others"
  shows "others_ok mapping (other # others)"
  unfolding others_ok_def
proof (intro allI impI)
  fix h :: "pyval heap" and m os S
  assume pre: "m < length h \<and> m \<notin> S \<and> S \<subseteq> {..<length h} \<and>
        rep_items S h (h ! m) mapping \<and>
        list_all2 (\<lambda>other ov. other \<in> S \<and> rep_items S h (h ! other) ov) os (other # others)"
  then have m: "m < length h" and mS: "m \<notin> S" and S: "S \<subseteq> {..<length h}"
    and rm: "rep_items S h (h ! m) mapping"
    and ro: "list_all2 (\<lambda>other ov. other \<in> S \<and> rep_items S h (h ! other) ov) os (other # others)"
    by simp_all
  from ro obtain ad os' where os: "os = ad # os'" and ad: "ad \<in> S" and rad: "rep_items S h (h ! ad) other"
    and ro': "list_all2 (\<lambda>other ov. other \<in> S \<and> rep_items S h (h ! other) ov) os' others"
    by (auto simp: list_all2_Cons2)
  from first [unfolded items_ok_def, rule_format, of m h S "h ! ad"] m mS S rm rad
  obtain D1 h1 where run1: "\<forall>d\<ge>D1. merge_items_h (\<lambda>h a b. deepmerge_h d h a [b]) h m (h ! ad) = (h1, True)"
    and len1: "length h \<le> length h1"
    and fr1: "\<forall>a<length h. a \<noteq> m \<longrightarrow> h1 ! a = h ! a"
    and rep1: "rep_items (S \<union> {length h..<length h1}) h1 (h1 ! m) (merge_other mapping other)"
    by blast
  let ?S1 = "S \<union> {length h..<length h1}"
  from m len1 have m1: "m < length h1" by simp
  from m mS have mS1: "m \<notin> ?S1" by auto
  from S len1 have S1: "?S1 \<subseteq> {..<length h1}" by auto
  have same: "\<And>a. a \<in> S \<Longrightarrow> h1 ! a = h ! a"
    using fr1 mS S by auto
  from ro' have ro1: "list_all2 (\<lambda>other ov. other \<in> ?S1 \<and> rep_items ?S1 h1 (h1 ! other) ov) os' others"
  proof (rule list_all2_mono)
    fix ad' ov assume "ad' \<in> S \<and> rep_items S h (h ! ad') ov"
    then have "ad' \<in> S" and r: "rep_items S h (h ! ad') ov" by simp_all
    have "rep_items ?S1 h1 (h ! ad') ov"
      by (rule rep_items_frame [OF r mS S len1 fr1]) simp
    with \<open>ad' \<in> S\<close> show "ad' \<in> ?S1 \<and> rep_items ?S1 h1 (h1 ! ad') ov"
      by (simp add: same)
  qed
  from rest [unfolded others_ok_def, rule_format, of m h1 ?S1 os'] m1 mS1 S1 rep1 ro1
  obtain D2 h' where run2: "\<forall>d\<ge>D2. merge_others_h (\<lambda>h a b. deepmerge_h d h a [b]) h1 m os' = (h', True)"
    and len': "length h1 \<le> length h'"
    and fr': "\<forall>a<length h1. a \<noteq> m \<longrightarrow> h' ! a = h1 ! a"
    and rep': "rep_items (?S1 \<union> {length h1..<length h'}) h' (h' ! m) (deepmerge (merge_other mapping other) others)"
    by blast
  have "\<forall>d\<ge>max D1 D2. merge_others_h (\<lambda>h a b. deepmerge_h d h a [b]) h m os = (h', True)"
  proof (intro allI impI)
    fix d assume d: "max D1 D2 \<le> d"
    with run1 have "merge_items_h (\<lambda>h a b. deepmerge_h d h a [b]) h m (h ! ad) = (h1, True)" by simp
    moreover from d run2 have "merge_others_h (\<lambda>h a b. deepmerge_h d h a [b]) h1 m os' = (h', True)" by simp
    ultimately show "merge_others_h (\<lambda>h a b. deepmerge_h d h a [b]) h m os = (h', True)"
      by (simp add: os)
  qed
  moreover from len1 len' have "length h \<le> length h'" by simp
  moreover from fr1 fr' len1 have "\<forall>a<length h. a \<noteq> m \<longrightarrow> h' ! a = h ! a" by auto
  moreover from rep' have "rep_items (S \<union> {length h..<length h'}) h' (h' ! m) (deepmerge mapping (other # others))"
    unfolding deepmerge.simps
    by (rule rep_items_transfer) (use len1 len' in auto)
  ultimately show "\<exists>D h'. (\<forall>d\<ge>D. merge_others_h (\<lambda>h a b. deepmerge_h d h a [b]) h m os = (h', True)) \<and>
           length h \<le> length h' \<and> (\<forall>a<length h. a \<noteq> m \<longrightarrow> h' ! a = h ! a) \<and>
           rep_items (S \<union> {length h..<length h'}) h' (h' ! m) (deepmerge mapping (other # others))"
    by blast
qed

lemma others_items_ok: "others_ok mapping ovs" and "items_ok mapping' items"
proof (induction mapping ovs and mapping' items rule: deepmerge_merge_other.induct)
  case (1 mapping)
  show ?case by (rule others_ok_Nil)
next
  case (2 mapping other others)
  then show ?case by (rule others_ok_step)
next
  case (3 mapping)
  show ?case by (rule items_ok_Nil)
next
  case (4 mapping k v items)
  have eq: "(case (dict_get mapping k, v) of
          (Some (VDict d), VDict e) \<Rightarrow> dict_set k (VDict (deepmerge d [e])) mapping
        | _ \<Rightarrow> dict_set k v mapping) = dict_set k (merged_value (dict_get mapping k) v) mapping"
    by (simp add: merged_value_def split: option.splits pyval.splits)
  show ?case
  proof (rule items_ok_step)
    fix dv e assume cur: "dict_get mapping k = Some (VDict dv)" and v: "v = VDict e"
    show "others_ok dv [e]" by (rule "4.IH"(1) [OF refl cur refl v])
  next
    from "4.IH"(2) show "items_ok (dict_set k (merged_value (dict_get mapping k) v) mapping) items"
      using eq by simp
  qed
qed

text \<open>
  When the base and the overrides are represented in the heap, \<open>deepmerge\<close> on the heap
  returns for every depth from some \<open>D\<close> on, leaves the heap it was given unchanged, and
  its result represents \<open>deepmerge\<close> on the represented values. So what is proved of the
  function on values holds of the objects that the call returns.
\<close>

lemma deepmerge_h_refines:
  assumes base: "represents h mapping base"
    and ovs: "list_all2 (represents h) others ovs"
  shows "\<exists>D h'. (\<forall>depth\<ge>D. deepmerge_h depth h mapping others = (h', Some (length h))) \<and>
           take (length h) h' = h \<and> represents h' (length h) (deepmerge base ovs)"
proof -
  let ?S = "{..<length h}"
  from base have a: "mapping \<in> ?S" and ra: "rep_items ?S h (h ! mapping) base"
    by (simp_all add: represents_def rep_in_Ref)
  from ovs have ro: "list_all2 (\<lambda>other ov. other \<in> ?S \<and> rep_items ?S h (h ! other) ov) others ovs"
    by (rule list_all2_mono) (simp add: represents_def rep_in_Ref)
  from call_from_others [OF others_items_ok(1), unfolded call_ok_def, rule_format, of ?S h mapping base others ovs]
    a ra ro
  obtain D h' where run: "\<forall>d\<ge>D. deepmerge_h d h mapping others = (h', Some (length h))"
    and len: "length h < length h'" and tk: "take (length h) h' = h"
    and rep: "rep_items (?S \<union> {length h..<length h'}) h' (h' ! length h) (deepmerge base ovs)"
    by auto
  from len have "?S \<union> {length h..<length h'} = {..<length h'}" by auto
  with rep len have "represents h' (length h) (deepmerge base ovs)"
    by (simp add: represents_def rep_in_Ref)
  with run tk show ?thesis by blast
qed

text \<open>
  Merging left to right, on objects: the object that \<open>deepmerge(deepmerge(a, b), c)\<close>
  returns and the object that \<open>deepmerge(a, b, c)\<close> returns represent the same value.
\<close>

lemma represents_extend:
  assumes "represents h a d" and "length h \<le> length h'" and "take (length h) h' = h"
  shows "represents h' a d"
  unfolding represents_def
proof (rule rep_in_transfer [OF assms(1) [unfolded represents_def]])
  from assms(2) show "{..<length h} \<subseteq> {..<length h'}" by auto
next
  fix b assume "b \<in> {..<length h}" and "b < length h"
  with assms(2,3) show "b < length h' \<and> h' ! b = h ! b"
    by (metis nth_take order_less_le_trans)
qed

lemma deepmerge_h_left_to_right:
  assumes a: "represents h a av" and b: "represents h b bv" and c: "represents h c cv"
  shows "\<exists>D h1 h2 h3.
           (\<forall>depth\<ge>D. deepmerge_h depth h a [b] = (h1, Some (length h)) \<and>
                       deepmerge_h depth h1 (length h) [c] = (h2, Some (length h1)) \<and>
                       deepmerge_h depth h a [b, c] = (h3, Some (length h))) \<and>
           represents h2 (length h1) (deepmerge av [bv, cv]) \<and>
           represents h3 (length h) (deepmerge av [bv, cv])"
proof -
  from deepmerge_h_refines [OF a, of "[b]" "[bv]"] b
  obtain D1 h1 where run1: "\<forall>depth\<ge>D1. deepmerge_h depth h a [b] = (h1, Some (length h))"
    and tk1: "take (length h) h1 = h" and rep1: "represents h1 (length h) (deepmerge av [bv])"
    by auto
  from arg_cong [OF tk1, of length] have len1: "length h \<le> length h1"
    by simp
  from represents_extend [OF c len1 tk1] have c1: "represents h1 c cv" .
  from deepmerge_h_refines [OF rep1, of "[c]" "[cv]"] c1
  obtain D2 h2 where run2: "\<forall>depth\<ge>D2. deepmerge_h depth h1 (length h) [c] = (h2, Some (length h1))"
    and rep2: "represents h2 (length h1) (deepmerge (deepmerge av [bv]) [cv])"
    by auto
  from deepmerge_h_refines [OF a, of "[b, c]" "[bv, cv]"] b c
  obtain D3 h3 where run3: "\<forall>depth\<ge>D3. deepmerge_h depth h a [b, c] = (h3, Some (length h))"
    and rep3: "represents h3 (length h) (deepmerge av [bv, cv])"
    by auto
  have eq: "deepmerge (deepmerge av [bv]) [cv] = deepmerge av [bv, cv]" by simp
  from run1 run2 run3
  have "\<forall>depth\<ge>max D1 (max D2 D3). deepmerge_h depth h a [b] = (h1, Some (length h)) \<and>
                       deepmerge_h depth h1 (length h) [c] = (h2, Some (length h1)) \<and>
                       deepmerge_h depth h a [b, c] = (h3, Some (length h))"
    by simp
  with rep2 rep3 eq show ?thesis by metis
qed


section \<open>The document that \<open>configure_logging\<close> applies\<close>






text \<open>
  C10. With \<open>extra = {}\<close> the merge is skipped as it is with \<open>extra = None\<close>: both calls
  hand the same document to the framework and so have the same outcome.
\<close>

theorem configure_logging_empty_extra:
  "configure_logging dictConfig getLogger (p\<lparr>extra := Some []\<rparr>) st
     = configure_logging dictConfig getLogger (p\<lparr>extra := None\<rparr>) st"
proof -
  have c: "merged_cfg (p\<lparr>extra := Some []\<rparr>) = merged_cfg (p\<lparr>extra := None\<rparr>)"
    by (simp add: merged_cfg_def cfg_def)
  have n: "name (p\<lparr>extra := Some []\<rparr>) = name (p\<lparr>extra := None\<rparr>)"
    by simp
  show ?thesis
    unfolding configure_logging_def c n ..
qed

text \<open>
  C8, as the code has it. \<open>configure_logging\<close> makes one call to \<open>dictConfig\<close> and has
  no rollback: when the call fails, the state is the one that \<open>dictConfig\<close> left when it
  raised on the merged document. It is the prior state if \<open>dictConfig\<close> itself never
  changes the state when it raises.
\<close>

theorem configure_logging_failure:
  assumes "configure_logging dictConfig getLogger p st = (st', Inl err)"
  shows "dictConfig (merged_cfg p) st = (st', Some err) \<and>
         ((\<forall>c s s' e. dictConfig c s = (s', Some e) \<longrightarrow> s' = s) \<longrightarrow> st' = st)"
  using assms
  by (auto simp: configure_logging_def split: prod.splits option.splits)

theorem configure_logging_failure_witness:
  "configure_logging checking_dictConfig (\<lambda>n st. n) ((defaults ''app'')\<lparr>extra := Some broken_extra\<rparr>) prior_state
     = (prior_state, Inl ''ValueError'')"
proof -
  let ?p = "(defaults ''app'')\<lparr>extra := Some broken_extra\<rparr>"
  have inv: "\<not> valid_cfg (merged_cfg ?p)"
    by (simp add: valid_cfg_def merged_cfg_def cfg_def defaults_def broken_extra_def dict_get_def)
  then obtain st' where run: "configure_logging checking_dictConfig (\<lambda>n st. n) ?p prior_state = (st', Inl ''ValueError'')"
    by (simp add: configure_logging_def checking_dictConfig_def)
  have "\<forall>c s s' e. checking_dictConfig c s = (s', Some e) \<longrightarrow> s' = s"
    by (simp add: checking_dictConfig_def)
  with configure_logging_failure [OF run] have "st' = prior_state" by blast
  with run show ?thesis by simp
qed

text \<open>
  C8 as stated fails on a \<open>dictConfig\<close> that discards the existing configuration before
  it reads the document: the call raises and the prior configuration is gone.
\<close>

theorem configure_logging_failure_counterexample:
  "configure_logging clearing_dictConfig (\<lambda>n st. n) ((defaults ''app'')\<lparr>extra := Some broken_extra\<rparr>) prior_state
     = ([], Inl ''ValueError'') \<and> prior_state \<noteq> []"
  by (simp add: configure_logging_def clearing_dictConfig_def valid_cfg_def merged_cfg_def cfg_def
        defaults_def broken_extra_def dict_get_def prior_state_def)


section \<open>The emitted JSON object\<close>

lemma JsonFormatter_add_fields_get:
  "dict_get (JsonFormatter_add_fields fs rn lr record md) k =
     (case find (\<lambda>f. rename_get rn f = k) (rev fs) of
        Some f \<Rightarrow> Some (record f)
      | None \<Rightarrow> dict_get lr k)"
proof (induction fs arbitrary: lr)
  case Nil
  then show ?case by simp
next
  case (Cons f fs)
  have "find (\<lambda>f. rename_get rn f = k) (rev fs @ [f]) =
     (case find (\<lambda>f. rename_get rn f = k) (rev fs) of
        Some g \<Rightarrow> Some g
      | None \<Rightarrow> if rename_get rn f = k then Some f else None)"
    by (rule find_snoc)
  then show ?case
    by (simp add: Cons.IH dict_get_set split: option.splits)
qed

lemma JsonFormatter_add_fields_keys:
  "dict_keys (JsonFormatter_add_fields fs rn lr record md) = rename_get rn ` set fs \<union> dict_keys lr"
  by (induction fs arbitrary: lr) (auto simp: dict_keys_set)

lemma json_object_get:
  assumes "wf_dict (init_static_fields static)"
  shows "dict_get (json_object referenced rename_map static record) k =
     (case find (\<lambda>f. rename_get rename_map f = k) (rev referenced) of
        Some f \<Rightarrow> Some (record f)
      | None \<Rightarrow> dict_get (init_static_fields static) k)"
proof -
  have "dict_get (dict_update [] (init_static_fields static)) k = dict_get (init_static_fields static) k"
    using dict_get_rev [OF assms, of k]
    by (simp add: dict_get_update split: option.splits) (simp add: dict_get_def)
  then show ?thesis
    by (simp add: json_object_def add_fields_def JsonFormatter_add_fields_get split: option.splits)
qed

lemma json_object_dict_keys:
  "dict_keys (json_object referenced rename_map static record) =
     rename_get rename_map ` set referenced \<union> dict_keys (init_static_fields static)"
  by (simp add: json_object_def add_fields_def JsonFormatter_add_fields_keys dict_keys_update)
     (simp add: dict_keys_def)




text \<open>
  C4. The keys of the emitted object are the renamed template fields together with the
  keys of \<open>static_fields\<close>, and every key holds the value of a record field that is
  emitted under it, or else its static value.
\<close>

theorem json_object_keys_values:
  assumes "wf_dict (init_static_fields static)"
  shows "dict_keys (json_object referenced rename_map static record) =
     rename_get rename_map ` set referenced \<union> dict_keys (init_static_fields static) \<and>
   (\<forall>k \<in> dict_keys (json_object referenced rename_map static record).
      (\<exists>f \<in> set referenced. rename_get rename_map f = k \<and>
           dict_get (json_object referenced rename_map static record) k = Some (record f)) \<or>
      (k \<in> dict_keys (init_static_fields static) \<and>
       dict_get (json_object referenced rename_map static record) k = dict_get (init_static_fields static) k))"
proof (intro conjI ballI)
  show "dict_keys (json_object referenced rename_map static record) =
     rename_get rename_map ` set referenced \<union> dict_keys (init_static_fields static)"
    by (rule json_object_dict_keys)
next
  fix k
  assume k: "k \<in> dict_keys (json_object referenced rename_map static record)"
  let ?out = "json_object referenced rename_map static record"
  show "(\<exists>f \<in> set referenced. rename_get rename_map f = k \<and> dict_get ?out k = Some (record f)) \<or>
        (k \<in> dict_keys (init_static_fields static) \<and> dict_get ?out k = dict_get (init_static_fields static) k)"
  proof (cases "find (\<lambda>f. rename_get rename_map f = k) (rev referenced)")
    case None
    then have "k \<notin> rename_get rename_map ` set referenced"
      unfolding find_None_iff by auto
    with k have "k \<in> dict_keys (init_static_fields static)"
      by (simp add: json_object_dict_keys)
    moreover from None have "dict_get ?out k = dict_get (init_static_fields static) k"
      by (simp add: json_object_get [OF assms])
    ultimately show ?thesis by blast
  next
    case (Some f)
    from find_Some_set [OF this] have "f \<in> set referenced" and "rename_get rename_map f = k"
      by simp_all
    moreover from Some have "dict_get ?out k = Some (record f)"
      by (simp add: json_object_get [OF assms])
    ultimately show ?thesis by blast
  qed
qed

theorem json_object_keys_values_witness:
  "wf_dict (init_static_fields (Some [(''program'', ''svc'')])) \<and>
   dict_keys (json_object [''levelname'', ''message''] example_rename (Some [(''program'', ''svc'')]) example_record)
     = {''level'', ''message'', ''program''} \<and>
   json_object [''levelname'', ''message''] example_rename (Some [(''program'', ''svc'')]) example_record
     = [(''program'', ''svc''), (''level'', ''WARNING''), (''message'', ''disk low'')]"
proof -
  have wf: "wf_dict (init_static_fields (Some [(''program'', ''svc'')]))"
    by (simp add: wf_dict_def init_static_fields_def)
  have out: "json_object [''levelname'', ''message''] example_rename (Some [(''program'', ''svc'')]) example_record
     = [(''program'', ''svc''), (''level'', ''WARNING''), (''message'', ''disk low'')]"
    by (simp add: json_object_def add_fields_def init_static_fields_def example_rename_def
        example_record_def rename_get_def dict_get_def)
  from json_object_keys_values [OF wf, of "[''levelname'', ''message'']" example_rename example_record]
  have "dict_keys (json_object [''levelname'', ''message''] example_rename (Some [(''program'', ''svc'')]) example_record)
     = rename_get example_rename ` set [''levelname'', ''message''] \<union> dict_keys (init_static_fields (Some [(''program'', ''svc'')]))"
    by blast
  then have "dict_keys (json_object [''levelname'', ''message''] example_rename (Some [(''program'', ''svc'')]) example_record)
     = {''level'', ''message'', ''program''}"
    by (simp add: example_rename_def rename_get_def dict_get_def dict_keys_def init_static_fields_def insert_commute)
  with wf out show ?thesis by simp
qed

end
